theory Spec2Isabelle
  imports Complex_Main "HOL-Library.AList"
begin

section \<open>The slotted inventory store (inventory/inventory_manager.py)\<close>

text \<open>
  Python values are modelled as follows.
  \<^item> A \<^verbatim>\<open>dict\<close> is an association list in insertion order, without duplicate keys:
    \<^verbatim>\<open>k in d\<close> is \<open>map_of d k \<noteq> None\<close>, \<^verbatim>\<open>d[k] = v\<close> is \<open>AList.update k v d\<close>
    (an existing key keeps its place, a new key goes to the end) and \<^verbatim>\<open>del d[k]\<close> is
    \<open>AList.delete k d\<close>.
  \<^item> Positions and counts are Python integers, hence \<open>int\<close>.
  \<^item> A \<^verbatim>\<open>Decimal\<close> amount is a rational number; no arithmetic is done on amounts here.
  \<^item> Objects are held by value. Where the source mutates an object that a dictionary
    refers to (\<^verbatim>\<open>curr.count += obj.count\<close>, \<^verbatim>\<open>item.mod()\<close>), the model writes the
    new value back under the key the object was read from.
\<close>

type_synonym decimal = rat

text \<open>
  The class \<^verbatim>\<open>Item\<close> (models/product.py) is not among the sources. The store and the
  workflow read the attributes \<^verbatim>\<open>code\<close>, \<^verbatim>\<open>count\<close> and \<^verbatim>\<open>val\<close> and call the methods
  \<^verbatim>\<open>check()\<close> and \<^verbatim>\<open>mod()\<close>; the attributes are the fields of the record, with \<open>val\<close>
  holding the amount \<^verbatim>\<open>Decimal(str(item.val))\<close>, and the two methods are parameters
  of the workflow (record \<open>Item_ops\<close> below).
\<close>

record Item =
  code :: string
  count :: int
  val :: decimal

record Store =
  cap :: int
  data :: "(string \<times> Item) list"
  smap :: "(int \<times> string) list"

text \<open>\<^verbatim>\<open>Store.__init__(cap)\<close>; the default capacity is 20.\<close>

definition Store_init :: "int \<Rightarrow> Store" where
  "Store_init c = \<lparr>cap = c, data = [], smap = []\<rparr>"

text \<open>
  The \<^verbatim>\<open>for i in range(self.cap)\<close> loop of \<^verbatim>\<open>put\<close>: the first \<open>i\<close> of the range that is
  not a key of \<^verbatim>\<open>_map\<close>, or \<open>None\<close> when the loop runs to its \<^verbatim>\<open>else\<close> branch.
\<close>

fun scan :: "(int \<times> string) list \<Rightarrow> int list \<Rightarrow> int option" where
  "scan m [] = None"
| "scan m (i # rest) = (if map_of m i = None then Some i else scan m rest)"

definition put :: "Store \<Rightarrow> Item \<Rightarrow> int option \<Rightarrow> bool \<times> Store" where
  "put s obj pos =
     (case map_of (data s) (code obj) of
        Some cur \<Rightarrow>
          (True, s\<lparr>data := AList.update (code obj)
                             (cur\<lparr>count := count cur + count obj\<rparr>) (data s)\<rparr>)
      | None \<Rightarrow>
          (case pos of
             Some p \<Rightarrow>
               if p < 0 \<or> p \<ge> cap s then (False, s)
               else if map_of (smap s) p \<noteq> None then (False, s)
               else (True, s\<lparr>data := AList.update (code obj) obj (data s),
                             smap := AList.update p (code obj) (smap s)\<rparr>)
           | None \<Rightarrow>
               (case scan (smap s) [0..cap s - 1] of
                  None \<Rightarrow> (False, s)
                | Some i \<Rightarrow>
                    (True, s\<lparr>data := AList.update (code obj) obj (data s),
                             smap := AList.update i (code obj) (smap s)\<rparr>))))"

text \<open>
  The loop of \<^verbatim>\<open>rm\<close> runs over a snapshot \<^verbatim>\<open>list(self._map.items())\<close> and deletes from
  the live dictionary by key.
\<close>

fun rm_loop :: "(int \<times> string) list \<Rightarrow> string \<Rightarrow> (int \<times> string) list \<Rightarrow> (int \<times> string) list" where
  "rm_loop [] c m = m"
| "rm_loop ((k, v) # rest) c m = rm_loop rest c (if v = c then AList.delete k m else m)"

definition rm :: "Store \<Rightarrow> string \<Rightarrow> bool \<times> Store" where
  "rm s c =
     (if map_of (data s) c = None then (False, s)
      else (True, s\<lparr>data := AList.delete c (data s),
                    smap := rm_loop (smap s) c (smap s)\<rparr>))"

definition get :: "Store \<Rightarrow> string \<Rightarrow> Item option" where
  "get s c = map_of (data s) c"

definition get_at :: "Store \<Rightarrow> int \<Rightarrow> Item option" where
  "get_at s pos =
     (case map_of (smap s) pos of
        None \<Rightarrow> None
      | Some c \<Rightarrow> map_of (data s) c)"

text \<open>\<^verbatim>\<open>find\<close>: the key of the first entry of \<^verbatim>\<open>_map\<close>, in iteration order, whose value is the code.\<close>

fun find_loop :: "(int \<times> string) list \<Rightarrow> string \<Rightarrow> int option" where
  "find_loop [] c = None"
| "find_loop ((k, v) # rest) c = (if v = c then Some k else find_loop rest c)"

definition find_store :: "Store \<Rightarrow> string \<Rightarrow> int option" where
  "find_store s c = find_loop (smap s) c"

text \<open>A sequence of \<^verbatim>\<open>put\<close> calls, each with its item and its optional position.\<close>

fun puts :: "Store \<Rightarrow> (Item \<times> int option) list \<Rightarrow> Store" where
  "puts s [] = s"
| "puts s ((obj, pos) # calls) = puts (snd (put s obj pos)) calls"

section \<open>The dispensing workflow (vending_machine.py)\<close>

text \<open>
  The module payment/payment_processor.py (\<^verbatim>\<open>Handler\<close>, \<^verbatim>\<open>Cash\<close>, \<^verbatim>\<open>Tx\<close>, \<^verbatim>\<open>TxStatus\<close>) is
  not among the sources. The workflow reads \<^verbatim>\<open>tx.st\<close> and \<^verbatim>\<open>tx.msg\<close>, compares the status
  with \<^verbatim>\<open>TxStatus.DONE\<close>, and calls \<^verbatim>\<open>proc\<close>, \<^verbatim>\<open>rev\<close>, \<^verbatim>\<open>add\<close> and \<^verbatim>\<open>ret\<close> on the handler.
\<close>

text \<open>
  Modelled from the spec: the enumeration \<^verbatim>\<open>TxStatus\<close>, whose declaration is missing. The
  spec gives it one success value ("done") and one or more failure values; a failure value
  is tagged here with the name of its member.
\<close>

datatype TxStatus = DONE | Failure string

record Tx =
  st :: TxStatus
  msg :: "string option"

text \<open>
  The handler is an object with a state of its own, of type \<open>'h\<close>; its methods are the
  parameters below, each taking the state and returning the new one. \<^verbatim>\<open>rev(tx)\<close> is handed
  the transaction object and may change it, so it returns the transaction as it leaves it.
  \<open>h_cash\<close> is the outcome of \<^verbatim>\<open>isinstance(self.h, Cash)\<close>; \<open>h_add\<close> and \<open>h_ret\<close> are
  called only when it holds.
\<close>

record 'h Handler =
  h_proc :: "'h \<Rightarrow> decimal \<Rightarrow> Tx \<times> 'h"
  h_rev :: "'h \<Rightarrow> Tx \<Rightarrow> bool \<times> Tx \<times> 'h"
  h_cash :: bool
  h_add :: "'h \<Rightarrow> decimal \<Rightarrow> 'h"
  h_ret :: "'h \<Rightarrow> decimal option \<times> 'h"

text \<open>
  The methods of \<^verbatim>\<open>Item\<close>: \<^verbatim>\<open>check()\<close> reads the item, \<^verbatim>\<open>mod()\<close> returns its verdict and
  the item as it leaves it.
\<close>

record Item_ops =
  i_check :: "Item \<Rightarrow> bool"
  i_mod :: "Item \<Rightarrow> bool \<times> Item"

datatype SysErr = SysErr string

record 'h Sys =
  store :: Store
  h :: 'h
  tx :: "Tx option"

text \<open>
  \<^verbatim>\<open>Sys.__init__(h)\<close>, with the handler object given. In the tests \<^verbatim>\<open>if not item\<close> and
  \<^verbatim>\<open>if not self._tx\<close> an item object and a transaction object count as true, so each test
  asks whether the value is \<^verbatim>\<open>None\<close>.
\<close>

definition Sys_init :: "'h \<Rightarrow> 'h Sys" where
  "Sys_init h0 = \<lparr>store = Store_init 20, h = h0, tx = None\<rparr>"

definition ls :: "Item_ops \<Rightarrow> Store \<Rightarrow> Item list" where
  "ls I s = filter (i_check I) (map snd (data s))"

definition ls_sys :: "Item_ops \<Rightarrow> 'h Sys \<Rightarrow> (int \<times> Item) list" where
  "ls_sys I s =
     sort_key fst
       (List.map_filter
          (\<lambda>item. case find_store (store s) (code item) of
                     None \<Rightarrow> None
                   | Some pos \<Rightarrow> Some (pos, item))
          (ls I (store s)))"

definition pick :: "Item_ops \<Rightarrow> 'h Sys \<Rightarrow> int \<Rightarrow> SysErr + Item" where
  "pick I s pos =
     (case get_at (store s) pos of
        None \<Rightarrow> Inl (SysErr ''invalid pos'')
      | Some item \<Rightarrow>
          if \<not> i_check I item then Inl (SysErr ''unavailable'')
          else Inr item)"

definition add_money :: "'h Handler \<Rightarrow> 'h Sys \<Rightarrow> decimal \<Rightarrow> (SysErr + unit) \<times> 'h Sys" where
  "add_money H s amt =
     (if \<not> h_cash H then (Inl (SysErr ''cash not supported''), s)
      else (Inr (), s\<lparr>h := h_add H (h s) amt\<rparr>))"

text \<open>
  The object that \<^verbatim>\<open>get_at(pos)\<close> returned is the one the store holds; after \<^verbatim>\<open>item.mod()\<close>
  the store holds the item as \<^verbatim>\<open>mod\<close> left it, under the code that the position maps to.
\<close>

definition set_at :: "Store \<Rightarrow> int \<Rightarrow> Item \<Rightarrow> Store" where
  "set_at s pos item =
     (case map_of (smap s) pos of
        None \<Rightarrow> s
      | Some c \<Rightarrow>
          (case map_of (data s) c of
             None \<Rightarrow> s
           | Some _ \<Rightarrow> s\<lparr>data := AList.update c item (data s)\<rparr>))"

text \<open>\<^verbatim>\<open>tx.msg or 'tx failed'\<close>: a message that is \<^verbatim>\<open>None\<close> or empty gives the generic text.\<close>

definition msg_or :: "Tx \<Rightarrow> string" where
  "msg_or t = (case msg t of None \<Rightarrow> ''tx failed'' | Some m \<Rightarrow> if m = [] then ''tx failed'' else m)"

definition buy ::
  "Item_ops \<Rightarrow> 'h Handler \<Rightarrow> 'h Sys \<Rightarrow> int \<Rightarrow> (SysErr + Item \<times> decimal option) \<times> 'h Sys" where
  "buy I H s pos =
     (case pick I s pos of
        Inl e \<Rightarrow> (Inl e, s)
      | Inr item \<Rightarrow>
          (case h_proc H (h s) (val item) of
             (t, h1) \<Rightarrow>
               if st t \<noteq> DONE then (Inl (SysErr (msg_or t)), s\<lparr>h := h1, tx := Some t\<rparr>)
               else
                 (case i_mod I item of
                    (ok, item') \<Rightarrow>
                      if \<not> ok then
                        (case h_rev H h1 t of
                           (r, t', h2) \<Rightarrow>
                             (Inl (SysErr ''dispense failed''),
                              s\<lparr>store := set_at (store s) pos item', h := h2, tx := Some t'\<rparr>))
                      else if h_cash H then
                        (case h_ret H h1 of
                           (ret, h3) \<Rightarrow>
                             (Inr (item', ret),
                              s\<lparr>store := set_at (store s) pos item', h := h3, tx := Some t\<rparr>))
                      else
                        (Inr (item', None),
                         s\<lparr>store := set_at (store s) pos item', h := h1, tx := Some t\<rparr>))))"

definition cancel :: "'h Handler \<Rightarrow> 'h Sys \<Rightarrow> (SysErr + decimal option) \<times> 'h Sys" where
  "cancel H s =
     (case tx s of
        None \<Rightarrow> (Inl (SysErr ''no tx''), s)
      | Some t \<Rightarrow>
          (case h_rev H (h s) t of
             (ok, t', h1) \<Rightarrow>
               if \<not> ok then (Inl (SysErr ''rev failed''), s\<lparr>h := h1, tx := Some t'\<rparr>)
               else if h_cash H then
                 (case h_ret H h1 of
                    (ret, h2) \<Rightarrow> (Inr ret, s\<lparr>h := h2, tx := None\<rparr>))
               else (Inr None, s\<lparr>h := h1, tx := None\<rparr>)))"

text \<open>The operations of the workflow, and a sequence of them run from a state.\<close>

datatype op = Ls | Pick int | Add_money decimal | Buy int | Cancel

fun step :: "Item_ops \<Rightarrow> 'h Handler \<Rightarrow> 'h Sys \<Rightarrow> op \<Rightarrow> 'h Sys" where
  "step I H s Ls = s"
| "step I H s (Pick pos) = s"
| "step I H s (Add_money amt) = snd (add_money H s amt)"
| "step I H s (Buy pos) = snd (buy I H s pos)"
| "step I H s Cancel = snd (cancel H s)"

fun run :: "Item_ops \<Rightarrow> 'h Handler \<Rightarrow> 'h Sys \<Rightarrow> op list \<Rightarrow> 'h Sys" where
  "run I H s [] = s"
| "run I H s (x # xs) = run I H (step I H s x) xs"

section \<open>Invariants and sample data\<close>

text \<open>
  The slot mapping is well formed when no position occurs twice and every occupied
  position lies in \<open>0..cap-1\<close>.
\<close>

definition slots_ok :: "Store \<Rightarrow> bool" where
  "slots_ok s \<longleftrightarrow> distinct (map fst (smap s)) \<and> fst ` set (smap s) \<subseteq> {0..<cap s}"

text \<open>Sample items and stores, used to instantiate the theorems below.\<close>

definition item_a :: Item where
  "item_a = \<lparr>code = ''A'', count = 2, val = 3 / 2\<rparr>"

definition item_b :: Item where
  "item_b = \<lparr>code = ''B'', count = 3, val = 2\<rparr>"

definition store_a :: Store where
  "store_a = snd (put (Store_init 1) item_a (Some 0))"

text \<open>
  The codes of the slot mapping are well formed when no code occurs at two positions and
  every mapped code is a key of the primary store.
\<close>

definition codes_ok :: "Store \<Rightarrow> bool" where
  "codes_ok s \<longleftrightarrow> distinct (map snd (smap s)) \<and> snd ` set (smap s) \<subseteq> fst ` set (data s)"

definition item_c :: Item where
  "item_c = \<lparr>code = ''C'', count = 1, val = 1\<rparr>"

definition store_gap :: Store where
  "store_gap = puts (Store_init 3) [(item_a, Some 0), (item_b, Some 2)]"

text \<open>
  The calls a workflow makes on its handler, for the instrumented handler below; then
  sample item methods (an item is available while its count is positive, and \<^verbatim>\<open>mod\<close>
  takes one unit when the dispenser works), sample transactions and sample workflows.
\<close>

datatype call = Proc decimal | Rev Tx | Add decimal | Ret

text \<open>
  A handler instrumented with a log of the calls made on it: the state is paired with the
  list of calls so far, and every method appends its own call.
\<close>

definition logged :: "'h Handler \<Rightarrow> ('h \<times> call list) Handler" where
  "logged H =
     \<lparr>h_proc = (\<lambda>(x, l) amt. case h_proc H x amt of (t, x') \<Rightarrow> (t, (x', l @ [Proc amt]))),
      h_rev = (\<lambda>(x, l) t. case h_rev H x t of (ok, t', x') \<Rightarrow> (ok, t', (x', l @ [Rev t]))),
      h_cash = h_cash H,
      h_add = (\<lambda>(x, l) amt. (h_add H x amt, l @ [Add amt])),
      h_ret = (\<lambda>(x, l). case h_ret H x of (c, x') \<Rightarrow> (c, (x', l @ [Ret])))\<rparr>"

text \<open>
  A handler without state: \<^verbatim>\<open>proc\<close> always returns the transaction \<open>t\<close>, \<^verbatim>\<open>rev\<close> always
  answers \<open>ok\<close>, and it is the cash variant, settling to \<open>change\<close>, when \<open>change\<close> is given.
\<close>

definition fixed_handler :: "decimal option \<Rightarrow> Tx \<Rightarrow> bool \<Rightarrow> unit Handler" where
  "fixed_handler change t ok =
     \<lparr>h_proc = (\<lambda>_ amt. (t, ())),
      h_rev = (\<lambda>_ x. (ok, x, ())),
      h_cash = (change \<noteq> None),
      h_add = (\<lambda>_ amt. ()),
      h_ret = (\<lambda>_. (change, ()))\<rparr>"

definition log_handler :: "decimal option \<Rightarrow> Tx \<Rightarrow> bool \<Rightarrow> (unit \<times> call list) Handler" where
  "log_handler change t ok = logged (fixed_handler change t ok)"

definition stock_ops :: "bool \<Rightarrow> Item_ops" where
  "stock_ops works =
     \<lparr>i_check = (\<lambda>i. 0 < count i),
      i_mod = (\<lambda>i. if works \<and> 0 < count i then (True, i\<lparr>count := count i - 1\<rparr>) else (False, i))\<rparr>"

definition tx_done :: Tx where
  "tx_done = \<lparr>st = DONE, msg = None\<rparr>"

definition tx_fail :: Tx where
  "tx_fail = \<lparr>st = Failure ''FAILED'', msg = Some ''insufficient funds''\<rparr>"

definition sys_a :: "(unit \<times> call list) Sys" where
  "sys_a = (Sys_init ((), []))\<lparr>store := puts (Store_init 20) [(item_a, Some 0), (item_b, Some 2)]\<rparr>"

definition sys_pending :: "(unit \<times> call list) Sys" where
  "sys_pending = sys_a\<lparr>tx := Some tx_fail\<rparr>"

section \<open>Properties of the store\<close>

subsection \<open>Auxiliary facts\<close>


lemma scan_None_iff: "scan m xs = None \<longleftrightarrow> (\<forall>i\<in>set xs. map_of m i \<noteq> None)"
  by (induction xs) auto

lemma scan_Some_free: "scan m xs = Some i \<Longrightarrow> i \<in> set xs \<and> map_of m i = None"
  by (induction xs) (auto split: if_splits)

lemma scan_Some_first:
  "sorted xs \<Longrightarrow> scan m xs = Some i \<Longrightarrow> j \<in> set xs \<Longrightarrow> j < i \<Longrightarrow> map_of m j \<noteq> None"
proof (induction xs)
  case Nil
  then show ?case by simp
next
  case (Cons x xs)
  show ?case
  proof (cases "map_of m x = None")
    case True
    with Cons.prems show ?thesis by auto
  next
    case False
    with Cons show ?thesis by auto
  qed
qed

lemma map_of_None_iff: "map_of m k = None \<longleftrightarrow> k \<notin> fst ` set m"
  by (simp add: map_of_eq_None_iff)

lemma update_fresh: "map_of m k = None \<Longrightarrow> AList.update k v m = m @ [(k, v)]"
  by (induction m) (auto split: if_splits)

lemma put_cap: "cap (snd (put s obj pos)) = cap s"
  by (simp add: put_def split: option.splits)

lemma put_slots_ok: "slots_ok s \<Longrightarrow> slots_ok (snd (put s obj pos))"
  unfolding slots_ok_def put_def
  by (auto simp: distinct_update dom_update dest!: scan_Some_free split: option.splits)

lemma puts_cap: "cap (puts s calls) = cap s"
  by (induction s calls rule: puts.induct) (simp_all add: put_cap)

lemma puts_slots_ok: "slots_ok s \<Longrightarrow> slots_ok (puts s calls)"
  by (induction s calls rule: puts.induct) (simp_all add: put_slots_ok)

lemma slots_ok_init: "slots_ok (Store_init c)"
  by (simp add: slots_ok_def Store_init_def)

lemma slots_ok_length: 
  assumes "slots_ok s" shows "int (length (smap s)) \<le> max 0 (cap s)"
proof -
  from assms have d: "distinct (map fst (smap s))" and sub: "set (map fst (smap s)) \<subseteq> {0..<cap s}"
    by (simp_all add: slots_ok_def)
  have "length (smap s) = card (set (map fst (smap s)))"
    using distinct_card [OF d] by simp
  also have "\<dots> \<le> card {0..<cap s}"
    by (rule card_mono [OF _ sub]) simp
  finally show ?thesis by simp
qed

lemma put_fail_unchanged: "fst (put s obj pos) = False \<Longrightarrow> snd (put s obj pos) = s"
  by (auto simp: put_def split: option.splits if_splits)


lemma store_a_eq: "store_a = \<lparr>cap = 1, data = [(''A'', item_a)], smap = [(0, ''A'')]\<rparr>"
  by (simp add: store_a_def put_def Store_init_def item_a_def)

subsection \<open>Capacity\<close>

text \<open>
  Claim C6. Whatever sequence of \<^verbatim>\<open>put\<close> calls is run on a store constructed with
  capacity \<open>c\<close>, the occupied positions are pairwise distinct and lie in \<open>0..c-1\<close>, so
  their number never exceeds the capacity (it is zero for a negative \<open>c\<close>). A \<^verbatim>\<open>put\<close>
  of a new code that cannot be placed (no free position in \<open>0..cap-1\<close> when \<open>pos\<close> is
  omitted; an explicit \<open>pos\<close> that is negative, beyond the capacity or occupied)
  returns false and leaves the store as it was; more generally every \<^verbatim>\<open>put\<close> that
  returns false leaves the store as it was.
\<close>

theorem put_capacity:
  "distinct (map fst (smap (puts (Store_init c) calls))) \<and>
   fst ` set (smap (puts (Store_init c) calls)) \<subseteq> {0..<c} \<and>
   int (length (smap (puts (Store_init c) calls))) \<le> max 0 c \<and>
   (0 \<le> c \<longrightarrow> int (length (smap (puts (Store_init c) calls))) \<le> c) \<and>
   (map_of (data s) (code obj) = None \<and>
    (case pos of
       None \<Rightarrow> \<forall>i. 0 \<le> i \<and> i < cap s \<longrightarrow> map_of (smap s) i \<noteq> None
     | Some p \<Rightarrow> p < 0 \<or> cap s \<le> p \<or> map_of (smap s) p \<noteq> None)
    \<longrightarrow> put s obj pos = (False, s)) \<and>
   (\<not> fst (put s obj pos) \<longrightarrow> snd (put s obj pos) = s)"
proof -
  let ?t = "puts (Store_init c) calls"
  have ok: "slots_ok ?t"
    by (rule puts_slots_ok [OF slots_ok_init])
  have capt: "cap ?t = c"
    by (simp add: puts_cap Store_init_def)
  from ok capt have a: "distinct (map fst (smap ?t))" and b: "fst ` set (smap ?t) \<subseteq> {0..<c}"
    by (simp_all add: slots_ok_def)
  from slots_ok_length [OF ok] capt have l: "int (length (smap ?t)) \<le> max 0 c"
    by simp
  have full: "put s obj None = (False, s)"
    if "map_of (data s) (code obj) = None"
      and "\<forall>i. 0 \<le> i \<and> i < cap s \<longrightarrow> map_of (smap s) i \<noteq> None"
  proof -
    from that(2) have "scan (smap s) [0..cap s - 1] = None"
      by (simp add: scan_None_iff)
    with that(1) show ?thesis by (simp add: put_def)
  qed
  have taken: "put s obj (Some p) = (False, s)"
    if "map_of (data s) (code obj) = None"
      and "p < 0 \<or> cap s \<le> p \<or> map_of (smap s) p \<noteq> None" for p
    using that by (auto simp: put_def)
  have c: "map_of (data s) (code obj) = None \<and>
    (case pos of
       None \<Rightarrow> \<forall>i. 0 \<le> i \<and> i < cap s \<longrightarrow> map_of (smap s) i \<noteq> None
     | Some p \<Rightarrow> p < 0 \<or> cap s \<le> p \<or> map_of (smap s) p \<noteq> None)
    \<longrightarrow> put s obj pos = (False, s)"
    using full taken by (cases pos) auto
  have d: "\<not> fst (put s obj pos) \<longrightarrow> snd (put s obj pos) = s"
    using put_fail_unchanged by simp
  from l have l2: "0 \<le> c \<longrightarrow> int (length (smap ?t)) \<le> c"
    by linarith
  from a b l l2 c d show ?thesis by blast
qed

theorem put_capacity_witness:
  "(0::int) \<le> 1 \<and>
   int (length (smap (puts (Store_init 1)
      [(item_a, Some 0), (item_b, Some 0), (item_b, None)]))) \<le> 1 \<and>
   map_of (data store_a) (code item_b) = None \<and>
   map_of (smap store_a) 0 \<noteq> None \<and>
   put store_a item_b (Some 0) = (False, store_a) \<and>
   \<not> fst (put store_a item_b None) \<and>
   snd (put store_a item_b None) = store_a"
proof -
  have h1: "map_of (data store_a) (code item_b) = None"
    by (simp add: store_a_eq item_b_def)
  have h2: "map_of (smap store_a) 0 \<noteq> None"
    by (simp add: store_a_eq)
  have h3: "\<not> fst (put store_a item_b None)"
    by (simp add: put_def store_a_eq item_b_def)
  from h1 h2 h3
    put_capacity [of 1 "[(item_a, Some 0), (item_b, Some 0), (item_b, None)]" store_a item_b "Some 0"]
    put_capacity [of 1 "[]" store_a item_b None]
  show ?thesis by simp
qed

subsection \<open>Further auxiliary facts\<close>

lemma scan_first:
  "sorted xs \<Longrightarrow> i \<in> set xs \<Longrightarrow> map_of m i = None \<Longrightarrow>
   (\<forall>j\<in>set xs. j < i \<longrightarrow> map_of m j \<noteq> None) \<Longrightarrow> scan m xs = Some i"
proof (induction xs)
  case Nil
  then show ?case by simp
next
  case (Cons x xs)
  show ?case
  proof (cases "x = i")
    case True
    with Cons.prems show ?thesis by simp
  next
    case False
    with Cons.prems have "x < i" by auto
    with Cons.prems have occ: "map_of m x \<noteq> None" by simp
    from Cons.prems False have "scan m xs = Some i"
      by (intro Cons.IH) auto
    with occ show ?thesis by auto
  qed
qed

lemma rm_loop_filter:
  "rm_loop xs c m = filter (\<lambda>kv. fst kv \<notin> {k. (k, c) \<in> set xs}) m"
proof (induction xs c m rule: rm_loop.induct)
  case (1 c m)
  then show ?case by simp
next
  case (2 k v rest c m)
  then show ?case
    by (auto simp: AList.delete_eq intro!: filter_cong)
qed

lemma rm_loop_no_code: "c \<notin> snd ` set (rm_loop m c m)"
  by (auto simp: rm_loop_filter)

lemma rm_loop_distinct:
  assumes "distinct (map fst m)"
  shows "rm_loop m c m = filter (\<lambda>kv. snd kv \<noteq> c) m"
proof -
  have "(fst kv \<notin> {k. (k, c) \<in> set m}) = (snd kv \<noteq> c)" if "kv \<in> set m" for kv
  proof -
    obtain k v where kv: "kv = (k, v)" by (cases kv)
    with that have in_m: "(k, v) \<in> set m" by simp
    have "(k, c) \<in> set m \<longleftrightarrow> v = c"
      using assms in_m by (auto dest: eq_key_imp_eq_value)
    with kv show ?thesis by simp
  qed
  then show ?thesis
    unfolding rm_loop_filter by (intro filter_cong) auto
qed

lemma find_loop_None_iff: "find_loop m c = None \<longleftrightarrow> c \<notin> snd ` set m"
  by (induction m c rule: find_loop.induct) auto

lemma map_of_SomeD_snd: "map_of m p = Some c \<Longrightarrow> c \<in> snd ` set m"
  by (force dest: map_of_SomeD)

lemma store_gap_eq:
  "store_gap = \<lparr>cap = 3, data = [(''A'', item_a), (''B'', item_b)], smap = [(0, ''A''), (2, ''B'')]\<rparr>"
  by (simp add: store_gap_def put_def Store_init_def item_a_def item_b_def)

lemma put_new_codes_ok:
  assumes "codes_ok s" and "map_of (data s) (code obj) = None" and "map_of (smap s) p = None"
  shows "codes_ok (s\<lparr>data := AList.update (code obj) obj (data s),
                      smap := AList.update p (code obj) (smap s)\<rparr>)"
proof -
  from assms(2) have "code obj \<notin> fst ` set (data s)"
    by (simp add: map_of_None_iff)
  with assms(1) have fresh: "code obj \<notin> snd ` set (smap s)"
    by (auto simp: codes_ok_def)
  from assms(3) have upd: "AList.update p (code obj) (smap s) = smap s @ [(p, code obj)]"
    by (rule update_fresh)
  from assms(1) fresh show ?thesis
    unfolding codes_ok_def upd by (auto simp: dom_update)
qed

lemma put_codes_ok: "codes_ok s \<Longrightarrow> codes_ok (snd (put s obj pos))"
proof (cases "map_of (data s) (code obj)")
  case (Some cur)
  assume "codes_ok s"
  with Some show ?thesis
    by (auto simp: put_def codes_ok_def dom_update)
next
  case None
  assume ok: "codes_ok s"
  show ?thesis
  proof (cases pos)
    case (Some p)
    with None ok put_new_codes_ok [OF ok None, of p] show ?thesis
      by (auto simp: put_def)
  next
    case pn: None
    show ?thesis
    proof (cases "scan (smap s) [0..cap s - 1]")
      case None
      with \<open>map_of (data s) (code obj) = None\<close> pn ok show ?thesis
        by (simp add: put_def)
    next
      case (Some i)
      then have "map_of (smap s) i = None"
        by (simp add: scan_Some_free)
      from put_new_codes_ok [OF ok \<open>map_of (data s) (code obj) = None\<close> this] Some pn
        \<open>map_of (data s) (code obj) = None\<close>
      show ?thesis by (simp add: put_def)
    qed
  qed
qed

lemma puts_codes_ok: "codes_ok s \<Longrightarrow> codes_ok (puts s calls)"
  by (induction s calls rule: puts.induct) (simp_all add: put_codes_ok)

lemma codes_ok_init: "codes_ok (Store_init c)"
  by (simp add: codes_ok_def Store_init_def)

lemma distinct_filter_le_1: "distinct (map f xs) \<Longrightarrow> length (filter (\<lambda>x. f x = c) xs) \<le> 1"
proof (induction xs)
  case Nil
  then show ?case by simp
next
  case (Cons x xs)
  show ?case
  proof (cases "f x = c")
    case True
    from Cons.prems have "f x \<notin> f ` set xs" by simp
    with True have "\<forall>y\<in>set xs. f y \<noteq> c" by (metis image_eqI)
    then have "filter (\<lambda>x. f x = c) xs = []" by (simp add: filter_empty_conv)
    with True show ?thesis by simp
  next
    case False
    with Cons show ?thesis by simp
  qed
qed

lemma put_existing:
  "map_of (data s) (code obj) = Some cur \<Longrightarrow>
   put s obj pos =
     (True, s\<lparr>data := AList.update (code obj) (cur\<lparr>count := count cur + count obj\<rparr>) (data s)\<rparr>)"
  by (simp add: put_def)

lemma update_existing_keys: "map_of m k = Some v \<Longrightarrow> map fst (AList.update k v' m) = map fst m"
  by (induction m) (auto split: if_splits)

subsection \<open>Aggregation by code\<close>

text \<open>
  Claim C7. When the store already holds an item with the code of the incoming item,
  \<^verbatim>\<open>put\<close> returns true, the stored item's count grows by the incoming count, every
  other entry of the primary store, the keys of the primary store and the whole slot
  mapping stay as they were, so no position is consumed. Over every sequence of \<^verbatim>\<open>put\<close>
  calls on a fresh store, no code ever sits at more than one position.
\<close>

theorem put_existing_code:
  "(map_of (data s) (code obj) = Some cur \<longrightarrow>
      fst (put s obj pos) \<and>
      get (snd (put s obj pos)) (code obj) = Some (cur\<lparr>count := count cur + count obj\<rparr>) \<and>
      (\<forall>k. k \<noteq> code obj \<longrightarrow> get (snd (put s obj pos)) k = get s k) \<and>
      map fst (data (snd (put s obj pos))) = map fst (data s) \<and>
      smap (snd (put s obj pos)) = smap s \<and>
      find_store (snd (put s obj pos)) (code obj) = find_store s (code obj)) \<and>
   length (filter (\<lambda>kv. snd kv = k') (smap (puts (Store_init c) calls))) \<le> 1"
proof -
  have one: "length (filter (\<lambda>kv. snd kv = k') (smap (puts (Store_init c) calls))) \<le> 1"
  proof -
    have "codes_ok (puts (Store_init c) calls)"
      by (rule puts_codes_ok [OF codes_ok_init])
    then have "distinct (map snd (smap (puts (Store_init c) calls)))"
      by (simp add: codes_ok_def)
    then show ?thesis by (rule distinct_filter_le_1)
  qed
  have ex: "fst (put s obj pos) \<and>
      get (snd (put s obj pos)) (code obj) = Some (cur\<lparr>count := count cur + count obj\<rparr>) \<and>
      (\<forall>k. k \<noteq> code obj \<longrightarrow> get (snd (put s obj pos)) k = get s k) \<and>
      map fst (data (snd (put s obj pos))) = map fst (data s) \<and>
      smap (snd (put s obj pos)) = smap s \<and>
      find_store (snd (put s obj pos)) (code obj) = find_store s (code obj)"
    if "map_of (data s) (code obj) = Some cur"
    unfolding put_existing [OF that]
    using that by (simp add: get_def update_conv' find_store_def update_existing_keys)
  from one ex show ?thesis by blast
qed

theorem put_existing_code_witness:
  "map_of (data store_gap) (code (item_a\<lparr>count := 3\<rparr>)) = Some item_a \<and>
   fst (put store_gap (item_a\<lparr>count := 3\<rparr>) None) \<and>
   get (snd (put store_gap (item_a\<lparr>count := 3\<rparr>) None)) ''A'' = Some (item_a\<lparr>count := 5\<rparr>) \<and>
   smap (snd (put store_gap (item_a\<lparr>count := 3\<rparr>) None)) = [(0, ''A''), (2, ''B'')] \<and>
   length (filter (\<lambda>kv. snd kv = ''A'')
     (smap (puts (Store_init 5) [(item_a, None), (item_a\<lparr>count := 3\<rparr>, None)]))) \<le> 1"
proof -
  have h: "map_of (data store_gap) (code (item_a\<lparr>count := 3\<rparr>)) = Some item_a"
    by (simp add: store_gap_eq item_a_def)
  from h put_existing_code [of store_gap "item_a\<lparr>count := 3\<rparr>" item_a None "''A''" 5
      "[(item_a, None), (item_a\<lparr>count := 3\<rparr>, None)]"]
  show ?thesis by (simp add: store_gap_eq item_a_def)
qed

text \<open>
  Claim C10. On the path for a code that is already present the \<open>pos\<close> argument is not
  looked at: the outcome is the same as with \<open>pos\<close> omitted, also for a negative, an
  out-of-range or an occupied position; the call returns true, changes the count of the
  stored item only, and leaves the slot mapping and the capacity alone.
\<close>

theorem put_existing_ignores_pos:
  "map_of (data s) (code obj) = Some cur \<Longrightarrow>
   put s obj pos = put s obj None \<and>
   put s obj pos =
     (True, s\<lparr>data := AList.update (code obj) (cur\<lparr>count := count cur + count obj\<rparr>) (data s)\<rparr>) \<and>
   (\<forall>p. p < 0 \<or> cap s \<le> p \<or> map_of (smap s) p \<noteq> None \<longrightarrow>
        fst (put s obj (Some p)) \<and>
        smap (snd (put s obj (Some p))) = smap s \<and>
        cap (snd (put s obj (Some p))) = cap s \<and>
        data (snd (put s obj (Some p))) =
          AList.update (code obj) (cur\<lparr>count := count cur + count obj\<rparr>) (data s))"
  by (simp add: put_existing)

theorem put_existing_ignores_pos_witness:
  "map_of (data store_gap) (code item_b) = Some item_b \<and>
   put store_gap item_b (Some (- 1)) = put store_gap item_b None \<and>
   put store_gap item_b (Some 7) = put store_gap item_b None \<and>
   put store_gap item_b (Some 0) = put store_gap item_b None \<and>
   (- 1 :: int) < 0 \<and> cap store_gap \<le> 7 \<and> map_of (smap store_gap) 0 \<noteq> None \<and>
   fst (put store_gap item_b (Some 0)) \<and>
   smap (snd (put store_gap item_b (Some 0))) = [(0, ''A''), (2, ''B'')] \<and>
   data (snd (put store_gap item_b (Some 0))) =
     [(''A'', item_a), (''B'', item_b\<lparr>count := 6\<rparr>)]"
proof -
  have h: "map_of (data store_gap) (code item_b) = Some item_b"
    by (simp add: store_gap_eq item_b_def)
  have g: "cap store_gap \<le> 7" "map_of (smap store_gap) 0 \<noteq> None"
    by (simp_all add: store_gap_eq)
  from h g put_existing_ignores_pos [OF h, of "Some (- 1)"] put_existing_ignores_pos [OF h, of "Some 7"]
    put_existing_ignores_pos [OF h, of "Some 0"]
  show ?thesis by (simp add: store_gap_eq item_b_def put_def)
qed

subsection \<open>Placement without a position\<close>

text \<open>
  Claim C8. For a new code and \<open>pos\<close> omitted: when \<open>i\<close> is the least position of
  \<open>0..cap-1\<close> that is free, \<^verbatim>\<open>put\<close> returns true, maps \<open>i\<close> to the code and stores the
  item, both as new last entries; when every position of \<open>0..cap-1\<close> is occupied it
  returns false and the store is as before. The call succeeds exactly when some
  position is free.
\<close>

theorem put_first_free:
  "map_of (data s) (code obj) = None \<Longrightarrow>
   (\<forall>i. 0 \<le> i \<and> i < cap s \<and> map_of (smap s) i = None \<and>
        (\<forall>j. 0 \<le> j \<and> j < i \<longrightarrow> map_of (smap s) j \<noteq> None) \<longrightarrow>
        put s obj None =
          (True, s\<lparr>data := data s @ [(code obj, obj)], smap := smap s @ [(i, code obj)]\<rparr>) \<and>
        map_of (smap (snd (put s obj None))) i = Some (code obj) \<and>
        get (snd (put s obj None)) (code obj) = Some obj) \<and>
   ((\<forall>i. 0 \<le> i \<and> i < cap s \<longrightarrow> map_of (smap s) i \<noteq> None) \<longrightarrow>
        put s obj None = (False, s)) \<and>
   (fst (put s obj None) \<longleftrightarrow> (\<exists>i. 0 \<le> i \<and> i < cap s \<and> map_of (smap s) i = None))"
proof -
  assume new: "map_of (data s) (code obj) = None"
  have placed: "put s obj None =
          (True, s\<lparr>data := data s @ [(code obj, obj)], smap := smap s @ [(i, code obj)]\<rparr>) \<and>
        map_of (smap (snd (put s obj None))) i = Some (code obj) \<and>
        get (snd (put s obj None)) (code obj) = Some obj"
    if i: "0 \<le> i \<and> i < cap s \<and> map_of (smap s) i = None \<and>
        (\<forall>j. 0 \<le> j \<and> j < i \<longrightarrow> map_of (smap s) j \<noteq> None)" for i
  proof -
    from i have "scan (smap s) [0..cap s - 1] = Some i"
      by (intro scan_first) auto
    with new i have "put s obj None =
          (True, s\<lparr>data := data s @ [(code obj, obj)], smap := smap s @ [(i, code obj)]\<rparr>)"
      by (simp add: put_def update_fresh)
    with new i show ?thesis by (simp add: get_def map_add_def)
  qed
  have full: "put s obj None = (False, s)"
    if "\<forall>i. 0 \<le> i \<and> i < cap s \<longrightarrow> map_of (smap s) i \<noteq> None"
  proof -
    from that have "scan (smap s) [0..cap s - 1] = None"
      by (simp add: scan_None_iff)
    with new show ?thesis by (simp add: put_def)
  qed
  have iff: "fst (put s obj None) \<longleftrightarrow> (\<exists>i. 0 \<le> i \<and> i < cap s \<and> map_of (smap s) i = None)"
  proof (cases "scan (smap s) [0..cap s - 1]")
    case None
    then have "\<forall>i. 0 \<le> i \<and> i < cap s \<longrightarrow> map_of (smap s) i \<noteq> None"
      by (simp add: scan_None_iff)
    with full show ?thesis by auto
  next
    case (Some i)
    from scan_Some_free [OF Some] have "0 \<le> i \<and> i < cap s \<and> map_of (smap s) i = None"
      by simp
    moreover from new Some have "fst (put s obj None)" by (simp add: put_def)
    ultimately show ?thesis by blast
  qed
  from placed full iff show ?thesis by blast
qed

theorem put_first_free_witness:
  "map_of (data store_gap) (code item_c) = None \<and>
   put store_gap item_c None =
     (True, \<lparr>cap = 3, data = [(''A'', item_a), (''B'', item_b), (''C'', item_c)],
             smap = [(0, ''A''), (2, ''B''), (1, ''C'')]\<rparr>) \<and>
   map_of (data store_a) (code item_b) = None \<and>
   put store_a item_b None = (False, store_a)"
proof -
  have h1: "map_of (data store_gap) (code item_c) = None"
    by (simp add: store_gap_eq item_c_def)
  have h2: "0 \<le> (1::int) \<and> 1 < cap store_gap \<and> map_of (smap store_gap) 1 = None \<and>
        (\<forall>j. 0 \<le> j \<and> j < (1::int) \<longrightarrow> map_of (smap store_gap) j \<noteq> None)"
    by (auto simp: store_gap_eq)
  have h3: "map_of (data store_a) (code item_b) = None"
    by (simp add: store_a_eq item_b_def)
  have h4: "\<forall>i. 0 \<le> i \<and> i < cap store_a \<longrightarrow> map_of (smap store_a) i \<noteq> None"
    by (auto simp: store_a_eq)
  from put_first_free [OF h1] h2 have a: "put store_gap item_c None =
     (True, store_gap\<lparr>data := data store_gap @ [(code item_c, item_c)],
                      smap := smap store_gap @ [(1, code item_c)]\<rparr>)"
    by blast
  from put_first_free [OF h3] h4 have b: "put store_a item_b None = (False, store_a)"
    by blast
  from h1 h3 a b show ?thesis
    by (simp add: store_gap_eq item_c_def)
qed

subsection \<open>Removal\<close>

text \<open>
  Claim C9. \<^verbatim>\<open>rm(code)\<close> returns false, changing nothing, when the code is not in the
  primary store. Otherwise it returns true, the code is deleted from the primary store,
  no entry of the slot mapping refers to the code any more (for a mapping with distinct
  positions, exactly the entries of other codes remain), and afterwards \<^verbatim>\<open>find(code)\<close>
  and \<^verbatim>\<open>get(code)\<close> return \<open>None\<close> and no position maps to the code.
\<close>

theorem rm_complete:
  "(map_of (data s) c = None \<longrightarrow> rm s c = (False, s)) \<and>
   (map_of (data s) c \<noteq> None \<longrightarrow>
      fst (rm s c) \<and>
      data (snd (rm s c)) = AList.delete c (data s) \<and>
      cap (snd (rm s c)) = cap s \<and>
      c \<notin> snd ` set (smap (snd (rm s c))) \<and>
      set (smap (snd (rm s c))) \<subseteq> set (smap s) \<and>
      (distinct (map fst (smap s)) \<longrightarrow>
         smap (snd (rm s c)) = filter (\<lambda>kv. snd kv \<noteq> c) (smap s)) \<and>
      find_store (snd (rm s c)) c = None \<and>
      get (snd (rm s c)) c = None \<and>
      (\<forall>p. map_of (smap (snd (rm s c))) p \<noteq> Some c))"
proof (cases "map_of (data s) c = None")
  case True
  then show ?thesis by (simp add: rm_def)
next
  case False
  let ?t = "snd (rm s c)"
  from False have t: "?t = s\<lparr>data := AList.delete c (data s), smap := rm_loop (smap s) c (smap s)\<rparr>"
    and ok: "fst (rm s c)"
    by (auto simp: rm_def)
  have no: "c \<notin> snd ` set (smap ?t)"
    unfolding t by (simp add: rm_loop_no_code)
  have sub: "set (smap ?t) \<subseteq> set (smap s)"
    unfolding t by (auto simp: rm_loop_filter)
  have flt: "distinct (map fst (smap s)) \<longrightarrow> smap ?t = filter (\<lambda>kv. snd kv \<noteq> c) (smap s)"
    unfolding t by (simp add: rm_loop_distinct)
  from no have fnd: "find_store ?t c = None"
    by (simp add: find_store_def find_loop_None_iff)
  have gt: "get ?t c = None"
    unfolding t by (simp add: get_def delete_conv)
  from no have nomap: "\<forall>p. map_of (smap ?t) p \<noteq> Some c"
    by (blast dest: map_of_SomeD_snd)
  have dt: "data ?t = AList.delete c (data s)" and cp: "cap ?t = cap s"
    unfolding t by simp_all
  from False ok dt cp no sub flt fnd gt nomap show ?thesis by blast
qed


theorem rm_complete_witness:
  "map_of (data store_gap) ''C'' = None \<and> rm store_gap ''C'' = (False, store_gap) \<and>
   map_of (data store_gap) ''A'' \<noteq> None \<and> distinct (map fst (smap store_gap)) \<and>
   fst (rm store_gap ''A'') \<and>
   smap (snd (rm store_gap ''A'')) = [(2, ''B'')] \<and>
   data (snd (rm store_gap ''A'')) = [(''B'', item_b)] \<and>
   find_store (snd (rm store_gap ''A'')) ''A'' = None \<and>
   get (snd (rm store_gap ''A'')) ''A'' = None"
proof -
  have h1: "map_of (data store_gap) ''C'' = None"
    and h2: "map_of (data store_gap) ''A'' \<noteq> None"
    and h3: "distinct (map fst (smap store_gap))"
    by (simp_all add: store_gap_eq)
  from h1 h2 h3 rm_complete [of store_gap "''C''"] rm_complete [of store_gap "''A''"]
  show ?thesis by (simp add: store_gap_eq)
qed

section \<open>Properties of the workflow\<close>

subsection \<open>Auxiliary facts\<close>

lemma sys_a_eq:
  "sys_a = \<lparr>store = \<lparr>cap = 20, data = [(''A'', item_a), (''B'', item_b)], smap = [(0, ''A''), (2, ''B'')]\<rparr>,
            h = ((), []), tx = None\<rparr>"
  by (simp add: sys_a_def Sys_init_def put_def Store_init_def item_a_def item_b_def)

lemma log_handler_simps:
  "h_proc (log_handler c t ok) (u, l) amt = (t, ((), l @ [Proc amt]))"
  "h_rev (log_handler c t ok) (u, l) x = (ok, x, ((), l @ [Rev x]))"
  "h_cash (log_handler c t ok) = (c \<noteq> None)"
  "h_add (log_handler c t ok) (u, l) amt = ((), l @ [Add amt])"
  "h_ret (log_handler c t ok) (u, l) = (c, ((), l @ [Ret]))"
  by (simp_all add: log_handler_def logged_def fixed_handler_def)

lemma stock_ops_simps:
  "i_check (stock_ops w) i = (0 < count i)"
  "i_mod (stock_ops w) i = (if w \<and> 0 < count i then (True, i\<lparr>count := count i - 1\<rparr>) else (False, i))"
  by (simp_all add: stock_ops_def)

lemma h_sys_a: "h sys_a = ((), [])"
  by (simp add: sys_a_def Sys_init_def)

lemma pick_a: "pick (stock_ops w) sys_a 0 = Inr item_a"
  by (simp add: pick_def get_at_def sys_a_eq stock_ops_simps item_a_def)

lemma buy_cases:
  assumes "pick I s pos = Inr item" and "h_proc H (h s) (val item) = (t, h1)"
  shows "st t \<noteq> DONE \<Longrightarrow> buy I H s pos = (Inl (SysErr (msg_or t)), s\<lparr>h := h1, tx := Some t\<rparr>)"
    and "st t = DONE \<Longrightarrow> i_mod I item = (False, item') \<Longrightarrow> h_rev H h1 t = (r, t', h2) \<Longrightarrow>
         buy I H s pos = (Inl (SysErr ''dispense failed''),
                          s\<lparr>store := set_at (store s) pos item', h := h2, tx := Some t'\<rparr>)"
    and "st t = DONE \<Longrightarrow> i_mod I item = (True, item') \<Longrightarrow> h_cash H \<Longrightarrow> h_ret H h1 = (ret, h3) \<Longrightarrow>
         buy I H s pos = (Inr (item', ret),
                          s\<lparr>store := set_at (store s) pos item', h := h3, tx := Some t\<rparr>)"
    and "st t = DONE \<Longrightarrow> i_mod I item = (True, item') \<Longrightarrow> \<not> h_cash H \<Longrightarrow>
         buy I H s pos = (Inr (item', None),
                          s\<lparr>store := set_at (store s) pos item', h := h1, tx := Some t\<rparr>)"
  using assms by (simp_all add: buy_def)

lemma buy_pick_fails: "pick I s pos = Inl e \<Longrightarrow> buy I H s pos = (Inl e, s)"
  by (simp add: buy_def)

lemma buy_Inr_D:
  assumes "fst (buy I H s pos) = Inr (it, ch)"
  shows "\<exists>item. pick I s pos = Inr item \<and>
           st (fst (h_proc H (h s) (val item))) = DONE \<and>
           i_mod I item = (True, it) \<and>
           tx (snd (buy I H s pos)) = Some (fst (h_proc H (h s) (val item)))"
proof (cases "pick I s pos")
  case (Inl e)
  with assms show ?thesis by (simp add: buy_def)
next
  case (Inr item)
  obtain t h1 where p: "h_proc H (h s) (val item) = (t, h1)" by (cases "h_proc H (h s) (val item)")
  obtain ok item' where m: "i_mod I item = (ok, item')" by (cases "i_mod I item")
  obtain r t' h2 where rv: "h_rev H h1 t = (r, t', h2)" by (cases "h_rev H h1 t")
  obtain ret h3 where rt: "h_ret H h1 = (ret, h3)" by (cases "h_ret H h1")
  from assms Inr p m rv rt show ?thesis
    by (auto simp: buy_def split: if_splits)
qed

lemma get_at_set_at:
  "get_at s pos \<noteq> None \<Longrightarrow> get_at (set_at s pos item') pos = Some item'"
  by (auto simp: get_at_def set_at_def update_conv' split: option.splits)

lemma set_at_same: "get_at s pos = Some item \<Longrightarrow> set_at s pos item = s"
  by (auto simp: get_at_def set_at_def update_triv split: option.splits)

lemma set_at_slots: "smap (set_at s pos item') = smap s \<and> cap (set_at s pos item') = cap s"
  by (simp add: set_at_def split: option.splits)

lemma pick_Inr_get_at: "pick I s pos = Inr item \<Longrightarrow> get_at (store s) pos = Some item"
  by (auto simp: pick_def split: option.splits if_splits)

lemma pick_store: "store s' = store s \<Longrightarrow> pick I s' pos = pick I s pos"
  by (simp add: pick_def)

lemma logged_simps:
  "h_proc H x amt = (t, x') \<Longrightarrow> h_proc (logged H) (x, l) amt = (t, (x', l @ [Proc amt]))"
  "h_rev H x t = (ok, t', x') \<Longrightarrow> h_rev (logged H) (x, l) t = (ok, t', (x', l @ [Rev t]))"
  "h_cash (logged H) = h_cash H"
  by (simp_all add: logged_def)

lemma step_tx_None:
  "tx s = None \<Longrightarrow> (\<forall>pos. x \<noteq> Buy pos) \<Longrightarrow> tx (step I H s x) = None"
  by (cases x) (simp_all add: add_money_def cancel_def)

lemma run_tx_None:
  "tx s = None \<Longrightarrow> (\<forall>pos. Buy pos \<notin> set xs) \<Longrightarrow> tx (run I H s xs) = None"
proof (induction xs arbitrary: s)
  case Nil
  then show ?case by simp
next
  case (Cons x xs)
  from Cons.prems have "tx (step I H s x) = None"
    by (intro step_tx_None) auto
  with Cons show ?case by simp
qed

lemma buy_tx_set:
  assumes "pick I s pos = Inr item"
  shows "tx (snd (buy I H s pos)) \<noteq> None"
    and "st (fst (h_proc H (h s) (val item))) \<noteq> DONE \<or> fst (i_mod I item) \<Longrightarrow>
         tx (snd (buy I H s pos)) = Some (fst (h_proc H (h s) (val item)))"
  using assms by (auto simp: buy_def split: prod.splits)

subsection \<open>Purchase\<close>

text \<open>
  Claim C1. When \<^verbatim>\<open>buy(pos)\<close> returns normally with an item and change, \<^verbatim>\<open>pick\<close> had
  returned an item, the transaction that the handler's \<^verbatim>\<open>proc\<close> returned for its price
  has the status \<open>DONE\<close>, and it is the transaction the workflow holds. Conversely, when
  that transaction's status is not \<open>DONE\<close>, \<^verbatim>\<open>buy\<close> raises and returns no item.
\<close>

theorem buy_no_free_dispense:
  "(fst (buy I H s pos) = Inr (it, ch) \<longrightarrow>
      (\<exists>item. pick I s pos = Inr item \<and>
         st (fst (h_proc H (h s) (val item))) = DONE \<and>
         tx (snd (buy I H s pos)) = Some (fst (h_proc H (h s) (val item))))) \<and>
   (\<forall>item. pick I s pos = Inr item \<and> st (fst (h_proc H (h s) (val item))) \<noteq> DONE \<longrightarrow>
      (\<exists>e. fst (buy I H s pos) = Inl e))"
proof -
  have a: "\<exists>item. pick I s pos = Inr item \<and>
         st (fst (h_proc H (h s) (val item))) = DONE \<and>
         tx (snd (buy I H s pos)) = Some (fst (h_proc H (h s) (val item)))"
    if "fst (buy I H s pos) = Inr (it, ch)"
    using buy_Inr_D [OF that] by blast
  have b: "\<exists>e. fst (buy I H s pos) = Inl e"
    if "pick I s pos = Inr item" and "st (fst (h_proc H (h s) (val item))) \<noteq> DONE" for item
  proof -
    obtain t h1 where p: "h_proc H (h s) (val item) = (t, h1)" by (cases "h_proc H (h s) (val item)")
    with that(2) have "st t \<noteq> DONE" by simp
    from buy_cases(1) [OF that(1) p this] show ?thesis by simp
  qed
  from a b show ?thesis by blast
qed

theorem buy_no_free_dispense_witness:
  "fst (buy (stock_ops True) (log_handler (Some (1 / 2)) tx_done True) sys_a 0) =
     Inr (item_a\<lparr>count := 1\<rparr>, Some (1 / 2)) \<and>
   pick (stock_ops True) sys_a 0 = Inr item_a \<and>
   st (fst (h_proc (log_handler (Some (1 / 2)) tx_done True) (h sys_a) (val item_a))) = DONE \<and>
   st (fst (h_proc (log_handler None tx_fail True) (h sys_a) (val item_a))) \<noteq> DONE \<and>
   (\<exists>e. fst (buy (stock_ops True) (log_handler None tx_fail True) sys_a 0) = Inl e)"
proof -
  have h1: "fst (buy (stock_ops True) (log_handler (Some (1 / 2)) tx_done True) sys_a 0) =
     Inr (item_a\<lparr>count := 1\<rparr>, Some (1 / 2))"
    by (simp add: buy_def pick_a h_sys_a log_handler_simps stock_ops_simps tx_done_def item_a_def)
  have h2: "st (fst (h_proc (log_handler None tx_fail True) (h sys_a) (val item_a))) \<noteq> DONE"
    by (simp add: h_sys_a log_handler_simps tx_fail_def)
  from buy_no_free_dispense [of "stock_ops True" "log_handler (Some (1 / 2)) tx_done True" sys_a 0
      "item_a\<lparr>count := 1\<rparr>" "Some (1 / 2)"] h1
  have a: "st (fst (h_proc (log_handler (Some (1 / 2)) tx_done True) (h sys_a) (val item_a))) = DONE"
    by (simp add: pick_a)
  from buy_no_free_dispense [of "stock_ops True" "log_handler None tx_fail True" sys_a 0] h2 pick_a
  have b: "\<exists>e. fst (buy (stock_ops True) (log_handler None tx_fail True) sys_a 0) = Inl e"
    by blast
  from h1 h2 a b pick_a show ?thesis by simp
qed


text \<open>
  Claim C2. When payment succeeds (the status is \<open>DONE\<close>) and \<^verbatim>\<open>mod()\<close> answers false,
  \<^verbatim>\<open>buy\<close> raises the error "dispense failed"; the handler is left in the state that one
  call of \<^verbatim>\<open>rev\<close> on the transaction of \<^verbatim>\<open>proc\<close> produces, and with a handler that logs
  its calls the log grows by exactly the call of \<^verbatim>\<open>proc\<close> with the price followed by one
  call of \<^verbatim>\<open>rev\<close> with that transaction. The item at the position is the item as \<^verbatim>\<open>mod\<close>
  left it: the workflow itself changes nothing of it, the slot mapping is unchanged, and
  when \<^verbatim>\<open>mod\<close> left the item alone the whole store is as before.
\<close>

theorem buy_dispense_failed:
  assumes "pick I s pos = Inr item"
    and "h_proc H (h s) (val item) = (t, h1)"
    and "st t = DONE"
    and "i_mod I item = (False, item')"
    and "h_rev H h1 t = (r, t', h2)"
  shows "buy I H s pos =
           (Inl (SysErr ''dispense failed''),
            s\<lparr>store := set_at (store s) pos item', h := h2, tx := Some t'\<rparr>) \<and>
         buy I (logged H) \<lparr>store = store s, h = (h s, l), tx = tx s\<rparr> pos =
           (Inl (SysErr ''dispense failed''),
            \<lparr>store = set_at (store s) pos item',
             h = (h2, l @ [Proc (val item), Rev t]), tx = Some t'\<rparr>) \<and>
         get_at (store (snd (buy I H s pos))) pos = Some item' \<and>
         smap (store (snd (buy I H s pos))) = smap (store s) \<and>
         (item' = item \<longrightarrow> store (snd (buy I H s pos)) = store s)"
proof -
  have b: "buy I H s pos =
           (Inl (SysErr ''dispense failed''),
            s\<lparr>store := set_at (store s) pos item', h := h2, tx := Some t'\<rparr>)"
    by (rule buy_cases(2) [OF assms])
  let ?s = "\<lparr>store = store s, h = (h s, l), tx = tx s\<rparr>"
  have p: "pick I ?s pos = Inr item"
    using assms(1) pick_store [of ?s s I pos] by simp
  have pr: "h_proc (logged H) (h ?s) (val item) = (t, (h1, l @ [Proc (val item)]))"
    using logged_simps(1) [OF assms(2)] by simp
  have rv: "h_rev (logged H) (h1, l @ [Proc (val item)]) t =
              (r, t', (h2, (l @ [Proc (val item)]) @ [Rev t]))"
    by (rule logged_simps(2) [OF assms(5)])
  have lg: "buy I (logged H) ?s pos =
           (Inl (SysErr ''dispense failed''),
            \<lparr>store = set_at (store s) pos item',
             h = (h2, l @ [Proc (val item), Rev t]), tx = Some t'\<rparr>)"
    using buy_cases(2) [OF p pr assms(3,4) rv] by simp
  from pick_Inr_get_at [OF assms(1)] have g: "get_at (store s) pos = Some item" .
  then have g': "get_at (set_at (store s) pos item') pos = Some item'"
    by (simp add: get_at_set_at)
  from g have same: "item' = item \<longrightarrow> set_at (store s) pos item' = store s"
    by (simp add: set_at_same)
  from b lg g' same show ?thesis
    by (simp add: set_at_slots)
qed

theorem buy_dispense_failed_witness:
  "pick (stock_ops False) sys_a 0 = Inr item_a \<and>
   h_proc (fixed_handler None tx_done True) () (val item_a) = (tx_done, ()) \<and>
   st tx_done = DONE \<and>
   i_mod (stock_ops False) item_a = (False, item_a) \<and>
   h_rev (fixed_handler None tx_done True) () tx_done = (True, tx_done, ()) \<and>
   buy (stock_ops False) (logged (fixed_handler None tx_done True)) sys_a 0 =
     (Inl (SysErr ''dispense failed''),
      \<lparr>store = store sys_a, h = ((), [Proc (3 / 2), Rev tx_done]), tx = Some tx_done\<rparr>)"
proof -
  let ?u = "\<lparr>store = store sys_a, h = (), tx = None\<rparr>"
  have h1: "pick (stock_ops False) ?u 0 = Inr item_a"
    using pick_a [of False] pick_store [of ?u sys_a "stock_ops False" 0] by simp
  have h2: "h_proc (fixed_handler None tx_done True) (h ?u) (val item_a) = (tx_done, ())"
    by (simp add: fixed_handler_def)
  have h3: "st tx_done = DONE"
    by (simp add: tx_done_def)
  have h4: "i_mod (stock_ops False) item_a = (False, item_a)"
    by (simp add: stock_ops_simps)
  have h5: "h_rev (fixed_handler None tx_done True) () tx_done = (True, tx_done, ())"
    by (simp add: fixed_handler_def)
  have s: "\<lparr>store = store ?u, h = (h ?u, []), tx = tx ?u\<rparr> = sys_a"
    by (simp add: sys_a_eq)
  have same: "set_at (store sys_a) 0 item_a = store sys_a"
    by (rule set_at_same [OF pick_Inr_get_at [OF pick_a [of False]]])
  from buy_dispense_failed [OF h1 h2 h3 h4 h5, of "[]"] s same pick_a [of False] h2 h3 h4 h5
  show ?thesis
    by (simp add: item_a_def)
qed

text \<open>
  Claim C3. When the transaction returned by \<^verbatim>\<open>proc\<close> has a status other than \<open>DONE\<close>,
  \<^verbatim>\<open>buy\<close> raises an error carrying the handler's message, or the text "tx failed" when
  the message is \<^verbatim>\<open>None\<close> or empty; the workflow holds that transaction afterwards, and
  the store, with the item and its count, is unchanged.
\<close>

theorem buy_tx_failed:
  assumes "pick I s pos = Inr item"
    and "h_proc H (h s) (val item) = (t, h1)"
    and "st t \<noteq> DONE"
  shows "buy I H s pos =
           (Inl (SysErr (case msg t of
                           None \<Rightarrow> ''tx failed''
                         | Some m \<Rightarrow> if m = [] then ''tx failed'' else m)),
            s\<lparr>h := h1, tx := Some t\<rparr>) \<and>
         tx (snd (buy I H s pos)) = Some t \<and>
         store (snd (buy I H s pos)) = store s \<and>
         get_at (store (snd (buy I H s pos))) pos = Some item"
proof -
  have "buy I H s pos = (Inl (SysErr (msg_or t)), s\<lparr>h := h1, tx := Some t\<rparr>)"
    by (rule buy_cases(1) [OF assms])
  with pick_Inr_get_at [OF assms(1)] show ?thesis
    by (simp add: msg_or_def)
qed

theorem buy_tx_failed_witness:
  "pick (stock_ops True) sys_a 0 = Inr item_a \<and>
   h_proc (log_handler None tx_fail True) (h sys_a) (val item_a) = (tx_fail, ((), [Proc (3 / 2)])) \<and>
   st tx_fail \<noteq> DONE \<and>
   buy (stock_ops True) (log_handler None tx_fail True) sys_a 0 =
     (Inl (SysErr ''insufficient funds''), sys_a\<lparr>h := ((), [Proc (3 / 2)]), tx := Some tx_fail\<rparr>) \<and>
   get_at (store (snd (buy (stock_ops True) (log_handler None tx_fail True) sys_a 0))) 0 = Some item_a"
proof -
  have h2: "h_proc (log_handler None tx_fail True) (h sys_a) (val item_a) = (tx_fail, ((), [Proc (3 / 2)]))"
    by (simp add: h_sys_a log_handler_simps item_a_def)
  have h3: "st tx_fail \<noteq> DONE"
    by (simp add: tx_fail_def)
  from buy_tx_failed [OF pick_a [of True] h2 h3] pick_a [of True] h2 h3 show ?thesis
    by (simp add: tx_fail_def pick_Inr_get_at [OF pick_a [of True]])
qed

subsection \<open>Cancellation\<close>

text \<open>
  Claim C5. \<^verbatim>\<open>cancel()\<close> raises "no tx" when no transaction is held, changing nothing.
  Otherwise it calls \<^verbatim>\<open>rev\<close> on the held transaction; when \<^verbatim>\<open>rev\<close> answers false it raises
  "rev failed" and a transaction is still held; when \<^verbatim>\<open>rev\<close> answers true the transaction
  is cleared and the result is the change settled by a cash handler, or \<open>None\<close> for any
  other handler.
\<close>

theorem cancel_cases:
  "(tx s = None \<longrightarrow> cancel H s = (Inl (SysErr ''no tx''), s)) \<and>
   (tx s = Some t \<and> h_rev H (h s) t = (ok, t', h1) \<longrightarrow>
      (\<not> ok \<longrightarrow>
         cancel H s = (Inl (SysErr ''rev failed''), s\<lparr>h := h1, tx := Some t'\<rparr>) \<and>
         tx (snd (cancel H s)) \<noteq> None) \<and>
      (ok \<and> h_cash H \<longrightarrow>
         cancel H s = (Inr (fst (h_ret H h1)), s\<lparr>h := snd (h_ret H h1), tx := None\<rparr>)) \<and>
      (ok \<and> \<not> h_cash H \<longrightarrow>
         cancel H s = (Inr None, s\<lparr>h := h1, tx := None\<rparr>)))"
  by (auto simp: cancel_def split: prod.splits)


theorem cancel_cases_witness:
  "tx sys_a = None \<and>
   cancel (log_handler None tx_done True) sys_a = (Inl (SysErr ''no tx''), sys_a) \<and>
   tx sys_pending = Some tx_fail \<and>
   h_rev (log_handler None tx_done False) (h sys_pending) tx_fail =
     (False, tx_fail, ((), [Rev tx_fail])) \<and>
   cancel (log_handler None tx_done False) sys_pending =
     (Inl (SysErr ''rev failed''), sys_pending\<lparr>h := ((), [Rev tx_fail])\<rparr>) \<and>
   h_rev (log_handler (Some (1 / 2)) tx_done True) (h sys_pending) tx_fail =
     (True, tx_fail, ((), [Rev tx_fail])) \<and>
   h_cash (log_handler (Some (1 / 2)) tx_done True) \<and>
   cancel (log_handler (Some (1 / 2)) tx_done True) sys_pending =
     (Inr (Some (1 / 2)), sys_a\<lparr>h := ((), [Rev tx_fail, Ret])\<rparr>) \<and>
   h_rev (log_handler None tx_done True) (h sys_pending) tx_fail =
     (True, tx_fail, ((), [Rev tx_fail])) \<and>
   \<not> h_cash (log_handler None tx_done True) \<and>
   cancel (log_handler None tx_done True) sys_pending =
     (Inr None, sys_a\<lparr>h := ((), [Rev tx_fail])\<rparr>)"
proof -
  have a: "tx sys_a = None" "tx sys_pending = Some tx_fail" "h sys_pending = ((), [])"
    by (simp_all add: sys_pending_def sys_a_eq)
  have r: "h_rev (log_handler c tx_done ok) (h sys_pending) tx_fail = (ok, tx_fail, ((), [Rev tx_fail]))"
    for c ok
    by (simp add: a log_handler_simps)
  have clr: "sys_pending\<lparr>h := x, tx := None\<rparr> = sys_a\<lparr>h := x\<rparr>" for x
    by (simp add: sys_pending_def sys_a_eq)
  have set: "sys_pending\<lparr>h := x, tx := Some tx_fail\<rparr> = sys_pending\<lparr>h := x\<rparr>" for x
    by (simp add: sys_pending_def)
  from a r clr set
    cancel_cases [of sys_a "log_handler None tx_done True"]
    cancel_cases [of sys_pending "log_handler None tx_done False" tx_fail False tx_fail "((), [Rev tx_fail])"]
    cancel_cases [of sys_pending "log_handler (Some (1 / 2)) tx_done True" tx_fail True tx_fail
      "((), [Rev tx_fail])"]
    cancel_cases [of sys_pending "log_handler None tx_done True" tx_fail True tx_fail "((), [Rev tx_fail])"]
  show ?thesis
    by (simp add: log_handler_simps)
qed

subsection \<open>The life of the active transaction\<close>

text \<open>
  Claim C4 says that every resolution of \<^verbatim>\<open>buy\<close> or \<^verbatim>\<open>cancel\<close>, a raised error included,
  clears the active transaction, a successful \<^verbatim>\<open>buy\<close> being the only exception. It fails:
  starting with no transaction held, a \<^verbatim>\<open>buy\<close> whose payment fails raises and still holds
  the failed transaction, and a \<^verbatim>\<open>buy\<close> whose dispense fails raises and still holds the
  reversed one.
\<close>

theorem tx_survives_error_counterexample:
  "tx sys_a = None \<and>
   fst (buy (stock_ops True) (log_handler None tx_fail True) sys_a 0) =
     Inl (SysErr ''insufficient funds'') \<and>
   tx (snd (buy (stock_ops True) (log_handler None tx_fail True) sys_a 0)) = Some tx_fail \<and>
   fst (buy (stock_ops False) (log_handler None tx_done True) sys_a 0) =
     Inl (SysErr ''dispense failed'') \<and>
   tx (snd (buy (stock_ops False) (log_handler None tx_done True) sys_a 0)) = Some tx_done"
proof -
  have p1: "h_proc (log_handler None tx_fail True) (h sys_a) (val item_a) = (tx_fail, ((), [Proc (val item_a)]))"
    and p2: "h_proc (log_handler None tx_done True) (h sys_a) (val item_a) = (tx_done, ((), [Proc (val item_a)]))"
    by (simp_all add: h_sys_a log_handler_simps)
  have s1: "st tx_fail \<noteq> DONE" and s2: "st tx_done = DONE"
    by (simp_all add: tx_fail_def tx_done_def)
  have m: "i_mod (stock_ops False) item_a = (False, item_a)"
    by (simp add: stock_ops_simps)
  have r: "h_rev (log_handler None tx_done True) ((), [Proc (val item_a)]) tx_done =
            (True, tx_done, ((), [Proc (val item_a), Rev tx_done]))"
    by (simp add: log_handler_simps)
  from buy_cases(1) [OF pick_a [of True] p1 s1] buy_cases(2) [OF pick_a [of False] p2 s2 m r]
  show ?thesis
    by (simp add: msg_or_def tx_fail_def sys_a_eq)
qed

text \<open>
  Claim C4, amended. No transaction is held at construction, and none is held after any
  sequence of operations without a \<^verbatim>\<open>buy\<close> that starts with none held. \<^verbatim>\<open>buy\<close> never
  clears the active transaction: when \<^verbatim>\<open>pick\<close> fails it is untouched, and once the payment
  step has run a transaction is held when the call ends, on every path; it is the one
  returned by \<^verbatim>\<open>proc\<close> when payment failed or the dispense succeeded. \<^verbatim>\<open>cancel\<close> clears
  the active transaction when it returns normally; when it raises, a transaction is held
  afterwards exactly when one was held before. \<^verbatim>\<open>add_money\<close> does not touch it.
\<close>

theorem tx_lifecycle:
  "tx (Sys_init h0) = None \<and>
   (tx s = None \<and> (\<forall>pos. Buy pos \<notin> set xs) \<longrightarrow> tx (run I H s xs) = None) \<and>
   (\<forall>e. pick I s pos = Inl e \<longrightarrow> tx (snd (buy I H s pos)) = tx s) \<and>
   (\<forall>item. pick I s pos = Inr item \<longrightarrow> tx (snd (buy I H s pos)) \<noteq> None) \<and>
   (\<forall>item. pick I s pos = Inr item \<and>
       (st (fst (h_proc H (h s) (val item))) \<noteq> DONE \<or> fst (i_mod I item)) \<longrightarrow>
       tx (snd (buy I H s pos)) = Some (fst (h_proc H (h s) (val item)))) \<and>
   (\<forall>r. fst (cancel H s) = Inr r \<longrightarrow> tx (snd (cancel H s)) = None) \<and>
   (\<forall>e. fst (cancel H s) = Inl e \<longrightarrow> (tx (snd (cancel H s)) = None \<longleftrightarrow> tx s = None)) \<and>
   tx (snd (add_money H s amt)) = tx s"
proof -
  have a: "tx (Sys_init h0) = None"
    by (simp add: Sys_init_def)
  have b: "tx s = None \<and> (\<forall>pos. Buy pos \<notin> set xs) \<longrightarrow> tx (run I H s xs) = None"
    using run_tx_None by blast
  have c: "\<forall>e. pick I s pos = Inl e \<longrightarrow> tx (snd (buy I H s pos)) = tx s"
    by (simp add: buy_pick_fails)
  have d: "\<forall>item. pick I s pos = Inr item \<longrightarrow> tx (snd (buy I H s pos)) \<noteq> None"
    using buy_tx_set(1) by blast
  have e: "\<forall>item. pick I s pos = Inr item \<and>
       (st (fst (h_proc H (h s) (val item))) \<noteq> DONE \<or> fst (i_mod I item)) \<longrightarrow>
       tx (snd (buy I H s pos)) = Some (fst (h_proc H (h s) (val item)))"
    using buy_tx_set(2) by blast
  have f: "\<forall>r. fst (cancel H s) = Inr r \<longrightarrow> tx (snd (cancel H s)) = None"
    by (auto simp: cancel_def split: option.splits prod.splits if_splits)
  have g: "\<forall>e. fst (cancel H s) = Inl e \<longrightarrow> (tx (snd (cancel H s)) = None \<longleftrightarrow> tx s = None)"
    by (auto simp: cancel_def split: option.splits prod.splits if_splits)
  have i: "tx (snd (add_money H s amt)) = tx s"
    by (simp add: add_money_def)
  from a b c d e f g i show ?thesis by blast
qed

theorem tx_lifecycle_witness:
  "tx sys_a = None \<and> (\<forall>pos. Buy pos \<notin> set [Ls, Cancel, Add_money 1, Pick 0]) \<and>
   tx (run (stock_ops True) (log_handler None tx_done True) sys_a [Ls, Cancel, Add_money 1, Pick 0]) = None \<and>
   pick (stock_ops True) sys_a 5 = Inl (SysErr ''invalid pos'') \<and>
   tx (snd (buy (stock_ops True) (log_handler None tx_done True) sys_a 5)) = None \<and>
   pick (stock_ops True) sys_a 0 = Inr item_a \<and>
   fst (i_mod (stock_ops True) item_a) \<and>
   tx (snd (buy (stock_ops True) (log_handler None tx_done True) sys_a 0)) = Some tx_done \<and>
   fst (cancel (log_handler None tx_done True) sys_pending) = Inr None \<and>
   tx (snd (cancel (log_handler None tx_done True) sys_pending)) = None \<and>
   fst (cancel (log_handler None tx_done False) sys_pending) = Inl (SysErr ''rev failed'') \<and>
   tx (snd (cancel (log_handler None tx_done False) sys_pending)) \<noteq> None"
proof -
  have a: "tx sys_a = None" "tx sys_pending = Some tx_fail" "h sys_pending = ((), [])"
    by (simp_all add: sys_pending_def sys_a_eq)
  have n: "\<forall>pos. Buy pos \<notin> set [Ls, Cancel, Add_money 1, Pick 0]"
    by simp
  have p5: "pick (stock_ops True) sys_a 5 = Inl (SysErr ''invalid pos'')"
    by (simp add: pick_def get_at_def sys_a_eq)
  have m: "fst (i_mod (stock_ops True) item_a)"
    by (simp add: stock_ops_simps item_a_def)
  have pr: "fst (h_proc (log_handler None tx_done True) (h sys_a) (val item_a)) = tx_done"
    by (simp add: h_sys_a log_handler_simps)
  have c1: "fst (cancel (log_handler None tx_done True) sys_pending) = Inr None"
    and c2: "fst (cancel (log_handler None tx_done False) sys_pending) = Inl (SysErr ''rev failed'')"
    by (simp_all add: cancel_def a log_handler_simps)
  from a n p5 m pr c1 c2 pick_a [of True]
    tx_lifecycle [of "()" sys_a "[Ls, Cancel, Add_money 1, Pick 0]" "stock_ops True"
      "log_handler None tx_done True" 5 0]
    tx_lifecycle [of "()" sys_a "[]" "stock_ops True" "log_handler None tx_done True" 0 0]
    tx_lifecycle [of "()" sys_pending "[]" "stock_ops True" "log_handler None tx_done True" 0 0]
    tx_lifecycle [of "()" sys_pending "[]" "stock_ops True" "log_handler None tx_done False" 0 0]
  show ?thesis
    by simp
qed

end
